theory Spec2Isabelle
  imports Main "HOL-Library.Multiset"
begin

section \<open>Data model of jeopardy.js\<close>

text \<open>
  The script keeps two globals, \<^verbatim>\<open>categories\<close> and \<^verbatim>\<open>gameStarted\<close>, and writes to four
  parts of the page: the header and the body of \<^verbatim>\<open>table#jeopardy\<close>, the spinner and the
  caption of the start button. All of them are fields of one record that every function
  takes and returns.

  A clue's \<^verbatim>\<open>showing\<close> property holds \<^verbatim>\<open>null\<close>, \<^verbatim>\<open>"question"\<close> or \<^verbatim>\<open>"answer"\<close>; it is a
  \<open>string option\<close> with \<open>None\<close> for \<^verbatim>\<open>null\<close>. \<^verbatim>\<open>question\<close> and \<^verbatim>\<open>answer\<close> are strings.
  The \<^verbatim>\<open>title\<close> of a category is a string when the service sent one; \<open>None\<close> stands for a
  response whose \<^verbatim>\<open>title\<close> is missing or is not a string, which the script does not check.
  Fields of the response that the script never reads are left out.

  Every category object comes out of its own HTTP response, so no two positions of
  \<^verbatim>\<open>categories\<close> share a clue object and the arrays are plain lists of values.
\<close>

record clue =
  question :: string
  answer :: string
  showing :: "string option"

record category =
  title :: "string option"
  clues :: "clue list"

text \<open>A \<^verbatim>\<open><td>\<close> of the table body: its \<^verbatim>\<open>id\<close> attribute, its text and its class list.\<close>

record td =
  td_id :: string
  td_text :: string
  td_class :: "string list"

record app =
  categories :: "category list"
  gameStarted :: bool
  thead :: "string list list"
  tbody :: "td list list"
  spinner :: bool
  startText :: string

definition NUM_CATEGORIES :: nat where
  "NUM_CATEGORIES = 6"

definition NUM_QUESTIONS_PER_CAT :: nat where
  "NUM_QUESTIONS_PER_CAT = 5"

text \<open>The only exception the script can raise by itself: reading a property of \<^verbatim>\<open>undefined\<close>.\<close>

datatype error = TypeError

section \<open>JavaScript and jQuery primitives the script uses\<close>

text \<open>\<^verbatim>\<open>s.split(sep)\<close> for a one-character separator: always at least one piece.\<close>

fun split :: "char \<Rightarrow> string \<Rightarrow> string list" where
  "split sep [] = [[]]"
| "split sep (c # cs) =
     (if c = sep then [] # split sep cs
      else (case split sep cs of [] \<Rightarrow> [[c]] | p # ps \<Rightarrow> (c # p) # ps))"

text \<open>
  Template-literal conversion of a non-negative integer, \<^verbatim>\<open>`${n}`\<close>: its decimal digits.
\<close>

definition digit :: "nat \<Rightarrow> char" where
  "digit d = char_of (48 + d)"

fun toString :: "nat \<Rightarrow> string" where
  "toString n = (if n < 10 then [digit n] else toString (n div 10) @ [digit (n mod 10)])"

declare toString.simps [simp del]

text \<open>
  \<^verbatim>\<open>array[key]\<close> with a string key. The key names an element only when it is the canonical
  decimal form of an index (no sign, no leading zero) below the length; for any other key
  the read yields \<^verbatim>\<open>undefined\<close>, here \<open>None\<close>. Keys that name an inherited member of
  arrays (\<^verbatim>\<open>"length"\<close>, \<^verbatim>\<open>"map"\<close>, ...) are never part of an id written by
  \<^verbatim>\<open>renderCategories\<close>; they are read as \<^verbatim>\<open>undefined\<close> as well, and a click with such a
  key leaves the board as it is in the script too. JavaScript arrays are shorter than
  \<open>2^32 - 1\<close>, so the bound that the language puts on an index never decides a read.
\<close>

definition isDigit :: "char \<Rightarrow> bool" where
  "isDigit c = (48 \<le> (of_char c :: nat) \<and> (of_char c :: nat) \<le> 57)"

definition digitValue :: "char \<Rightarrow> nat" where
  "digitValue c = of_char c - 48"

definition arrayIndex :: "string \<Rightarrow> nat option" where
  "arrayIndex key =
     (if key \<noteq> [] \<and> list_all isDigit key \<and> (key = ''0'' \<or> hd key \<noteq> CHR ''0'')
      then Some (foldl (\<lambda>acc c. 10 * acc + digitValue c) 0 key)
      else None)"

definition getProp :: "'a list \<Rightarrow> string \<Rightarrow> 'a option" where
  "getProp array key =
     (case arrayIndex key of
        None \<Rightarrow> None
      | Some i \<Rightarrow> if i < length array then Some (array ! i) else None)"

text \<open>\<^verbatim>\<open>!v\<close> on a value that is \<^verbatim>\<open>null\<close> or a string: true for \<^verbatim>\<open>null\<close> and for \<^verbatim>\<open>""\<close>.\<close>

definition falsy :: "string option \<Rightarrow> bool" where
  "falsy v = (v = None \<or> v = Some [])"

text \<open>
  \<^verbatim>\<open>$("#" + id)\<close> selects the first element of the document carrying that id, or nothing.
  The ids that reach the selector begin with a digit, so only cells of the table body can
  match. \<open>onFirst id f rows\<close> applies \<open>f\<close> to that cell.
\<close>

fun onFirstInRow :: "string \<Rightarrow> (td \<Rightarrow> td) \<Rightarrow> td list \<Rightarrow> td list" where
  "onFirstInRow i f [] = []"
| "onFirstInRow i f (c # cs) = (if td_id c = i then f c # cs else c # onFirstInRow i f cs)"

fun onFirst :: "string \<Rightarrow> (td \<Rightarrow> td) \<Rightarrow> td list list \<Rightarrow> td list list" where
  "onFirst i f [] = []"
| "onFirst i f (row # rows) =
     (if list_ex (\<lambda>c. td_id c = i) row then onFirstInRow i f row # rows
      else row # onFirst i f rows)"

definition setText :: "string \<Rightarrow> td \<Rightarrow> td" where
  "setText s c = c\<lparr>td_text := s\<rparr>"

definition addClass :: "string \<Rightarrow> td \<Rightarrow> td" where
  "addClass k c = (if k \<in> set (td_class c) then c else c\<lparr>td_class := td_class c @ [k]\<rparr>)"

section \<open>handleClick\<close>

text \<open>
  Writing through a reference found by \<^verbatim>\<open>array[key]\<close>: the element under that key is
  replaced by its updated value; the handler writes only after the read has found one.
\<close>

definition modProp :: "'a list \<Rightarrow> string \<Rightarrow> ('a \<Rightarrow> 'a) \<Rightarrow> 'a list" where
  "modProp array key f =
     (case arrayIndex key of
        None \<Rightarrow> array
      | Some i \<Rightarrow> if i < length array then array[i := f (array ! i)] else array)"

text \<open>\<^verbatim>\<open>clue.showing = v\<close> for the clue object \<^verbatim>\<open>categories[catId].clues[clueId]\<close>.\<close>

definition setShowing :: "string \<Rightarrow> string \<Rightarrow> string option \<Rightarrow> category list \<Rightarrow> category list" where
  "setShowing catId clueId v cats =
     modProp cats catId
       (\<lambda>cat. cat\<lparr>clues := modProp (clues cat) clueId (\<lambda>clue. clue\<lparr>showing := v\<rparr>)\<rparr>)"

text \<open>
  The handler receives the id of the clicked cell (\<^verbatim>\<open>evt.target.id\<close>). Reading
  \<^verbatim>\<open>.clues\<close> of a missing category and reading \<^verbatim>\<open>.showing\<close> of a missing clue throw; both
  happen before anything is written.
\<close>

definition handleClick :: "string \<Rightarrow> app \<Rightarrow> error + app" where
  "handleClick ident st =
     (case split CHR ''-'' ident of
        catId # clueId # _ \<Rightarrow>
          (case getProp (categories st) catId of
             None \<Rightarrow> Inl TypeError
           | Some cat \<Rightarrow>
               (case getProp (clues cat) clueId of
                  None \<Rightarrow> Inl TypeError
                | Some clue \<Rightarrow>
                    if falsy (showing clue) then
                      Inr (st\<lparr>tbody := onFirst ident (setText (question clue)) (tbody st),
                              categories := setShowing catId clueId (Some ''question'') (categories st)\<rparr>)
                    else if showing clue = Some ''question'' then
                      Inr (st\<lparr>tbody := onFirst ident (addClass ''showing-answer'')
                                          (onFirst ident (setText (answer clue)) (tbody st)),
                              categories := setShowing catId clueId (Some ''answer'') (categories st)\<rparr>)
                    else Inr st))
      | _ \<Rightarrow> Inl TypeError)"

text \<open>
  Dispatching a click: an exception thrown by the handler is reported by the browser and
  leaves the page and the globals as they were; later clicks are still delivered.
\<close>

definition dispatch :: "app \<Rightarrow> string \<Rightarrow> app" where
  "dispatch st ident = (case handleClick ident st of Inl e \<Rightarrow> st | Inr st' \<Rightarrow> st')"

definition dispatchAll :: "app \<Rightarrow> string list \<Rightarrow> app" where
  "dispatchAll st idents = foldl dispatch st idents"

section \<open>renderCategories\<close>

text \<open>
  \<^verbatim>\<open>String.prototype.toUpperCase\<close> on the ASCII letters; other characters are kept.
\<close>

definition upperChar :: "char \<Rightarrow> char" where
  "upperChar c =
     (if 97 \<le> (of_char c :: nat) \<and> (of_char c :: nat) \<le> 122 then char_of (of_char c - 32 :: nat) else c)"

definition toUpperCase :: "string \<Rightarrow> string" where
  "toUpperCase s = map upperChar s"

text \<open>The id given to the cell of category \<open>catIdx\<close> in row \<open>clueIdx\<close>: \<^verbatim>\<open>`${catIdx}-${clueIdx}`\<close>.\<close>

definition cellId :: "nat \<Rightarrow> nat \<Rightarrow> string" where
  "cellId catIdx clueIdx = toString catIdx @ ''-'' @ toString clueIdx"

text \<open>
  \<^verbatim>\<open>categories.forEach((category, catIdx) => $tr.append(...))\<close>: one cell per category, with
  the running index.
\<close>

fun bodyRow :: "nat \<Rightarrow> nat \<Rightarrow> category list \<Rightarrow> td list" where
  "bodyRow clueIdx catIdx [] = []"
| "bodyRow clueIdx catIdx (category # rest) =
     \<lparr>td_id = cellId catIdx clueIdx, td_text = ''?'', td_class = []\<rparr>
       # bodyRow clueIdx (Suc catIdx) rest"

text \<open>
  \<^verbatim>\<open>for (let clueIdx = 0; clueIdx < NUM_QUESTIONS_PER_CAT; clueIdx++)\<close>, appending one row
  per round to the rows already in the body.
\<close>

function bodyLoop :: "nat \<Rightarrow> category list \<Rightarrow> td list list \<Rightarrow> td list list" where
  "bodyLoop clueIdx cats rows =
     (if clueIdx < NUM_QUESTIONS_PER_CAT
      then bodyLoop (Suc clueIdx) cats (rows @ [bodyRow clueIdx 0 cats])
      else rows)"
  by pat_completeness auto
termination
  by (relation "measure (\<lambda>(clueIdx, cats, rows). NUM_QUESTIONS_PER_CAT - clueIdx)") auto

declare bodyLoop.simps [simp del]

text \<open>
  The header cells, built in board order. \<^verbatim>\<open>category.title.toUpperCase()\<close> throws for a
  title that is not a string, and the loop ends there.
\<close>

fun headerRow :: "category list \<Rightarrow> error + string list" where
  "headerRow [] = Inr []"
| "headerRow (category # rest) =
     (case title category of
        None \<Rightarrow> Inl TypeError
      | Some t \<Rightarrow>
          (case headerRow rest of
             Inl e \<Rightarrow> Inl e
           | Inr cells \<Rightarrow> Inr (toUpperCase t # cells)))"

text \<open>
  Both parts of the table are emptied first; the header then receives its single row and
  the body its rows. The result is \<open>Inr\<close> of the state when the function returns, and \<open>Inl\<close>
  of the exception and the state it leaves behind when building the header row throws: by
  then the table has been emptied and nothing has been appended to it.
\<close>

definition renderCategories :: "category list \<Rightarrow> app \<Rightarrow> (error \<times> app) + app" where
  "renderCategories cats st =
     (let st1 = st\<lparr>thead := [], tbody := []\<rparr>
      in case headerRow cats of
           Inl e \<Rightarrow> Inl (e, st1)
         | Inr cells \<Rightarrow>
             (let st2 = st1\<lparr>thead := thead st1 @ [cells]\<rparr>
              in Inr (st2\<lparr>tbody := bodyLoop 0 cats (tbody st2)\<rparr>)))"

section \<open>Fetching categories\<close>

text \<open>
  The outcome of an \<^verbatim>\<open>axios.get\<close> as the script sees it: either the \<^verbatim>\<open>try\<close> block runs
  through on the data of the response, or something in it throws (the request is rejected,
  or the data has not the expected shape) and the \<^verbatim>\<open>catch\<close> block takes over.
\<close>

datatype 'a response = Failure | Success 'a

text \<open>
  \<^verbatim>\<open>array.slice(start, stop)\<close>: negative arguments count from the end, and both are clamped to
  the length.
\<close>

definition slice :: "int \<Rightarrow> int \<Rightarrow> 'a list \<Rightarrow> 'a list" where
  "slice start stop array =
     (let len = int (length array);
          k = (if start < 0 then max (len + start) 0 else min start len);
          final = (if stop < 0 then max (len + stop) 0 else min stop len)
      in take (nat (final - k)) (drop (nat k) array))"

text \<open>\<^verbatim>\<open>category.clues.forEach(clue => { clue.showing = null; })\<close>\<close>

fun hideAll :: "clue list \<Rightarrow> clue list" where
  "hideAll [] = []"
| "hideAll (clue # rest) = clue\<lparr>showing := None\<rparr> # hideAll rest"

text \<open>
  \<^verbatim>\<open>getCategory\<close> is given the outcome of the request it makes for its \<^verbatim>\<open>catId\<close>. The
  \<open>option\<close> result is the returned category, \<open>None\<close> being \<^verbatim>\<open>null\<close>.
\<close>

definition getCategory :: "category response \<Rightarrow> category option" where
  "getCategory resp =
     (case resp of
        Failure \<Rightarrow> None
      | Success category \<Rightarrow>
          Some (category\<lparr>clues := hideAll (slice 0 (int NUM_QUESTIONS_PER_CAT) (clues category))\<rparr>))"

text \<open>
  Modelled from the spec: \<^verbatim>\<open>_.sampleSize\<close> belongs to the lodash library, which is not part
  of the sources. The spec has it draw a random sample of the requested size from the pool
  without replacement. The model is the partial shuffle that does so: the size is clamped
  to the length of the array, round \<open>index\<close> exchanges position \<open>index\<close> with a random
  position between \<open>index\<close> and the last one, and the first \<open>sz\<close> elements are the
  sample. \<open>rnd index\<close> is the random number drawn in that round.
\<close>

function shuffleSelf :: "(nat \<Rightarrow> nat) \<Rightarrow> nat \<Rightarrow> nat \<Rightarrow> 'a list \<Rightarrow> 'a list" where
  "shuffleSelf rnd sz index array =
     (if index < sz
      then (let rand = index + rnd index mod (length array - index);
                val = array ! rand
            in shuffleSelf rnd sz (Suc index) (array[rand := array ! index, index := val]))
      else take sz array)"
  by pat_completeness auto
termination
  by (relation "measure (\<lambda>(rnd, sz, index, array). sz - index)") auto

declare shuffleSelf.simps [simp del]

definition sampleSize :: "(nat \<Rightarrow> nat) \<Rightarrow> 'a list \<Rightarrow> nat \<Rightarrow> 'a list" where
  "sampleSize rnd array n = shuffleSelf rnd (min n (length array)) 0 array"

text \<open>
  \<^verbatim>\<open>getCategoriesIds\<close> is given the random numbers and the outcome of its request. The data
  of the category-list response is an array of records with an \<^verbatim>\<open>id\<close>; the list holds the
  ids of those records in their order, which is what \<^verbatim>\<open>response.data.map\<close> produces.
\<close>

definition getCategoriesIds :: "(nat \<Rightarrow> nat) \<Rightarrow> int list response \<Rightarrow> int list" where
  "getCategoriesIds rnd resp =
     (case resp of
        Failure \<Rightarrow> []
      | Success categoryIds \<Rightarrow> sampleSize rnd categoryIds NUM_CATEGORIES)"

section \<open>setupAndStart\<close>

definition showLoadingView :: "app \<Rightarrow> app" where
  "showLoadingView st = st\<lparr>thead := [], tbody := [], spinner := True\<rparr>"

definition hideLoadingView :: "app \<Rightarrow> app" where
  "hideLoadingView st = st\<lparr>spinner := False\<rparr>"

text \<open>
  The two captions, byte for byte as the source file has them: the word between two
  pointing-hand glyphs.
\<close>

definition handRight :: string where
  "handRight = map char_of [195, 176, 197, 184, 226, 128, 152, 226, 128, 176 :: nat]"

definition handLeft :: string where
  "handLeft = map char_of [195, 176, 197, 184, 226, 128, 152, 203, 134 :: nat]"

definition restartCaption :: string where
  "restartCaption = handRight @ '' Restart '' @ handLeft"

definition startCaption :: string where
  "startCaption = handRight @ '' Start '' @ handLeft"

text \<open>
  \<^verbatim>\<open>setupAndStart\<close> is an \<^verbatim>\<open>async\<close> function: it stops at \<^verbatim>\<open>await getCategoriesIds()\<close> and at
  every \<^verbatim>\<open>await getCategory(catId)\<close> until the response of the request arrives. While it is
  stopped the page is live: cells can be clicked, and the start button can be clicked
  again, which starts another run of the function on the same globals. So a run is not one
  step but a sequence of steps, one for each stretch of code between two stops, and steps
  of different runs can alternate.

  What a stopped run remembers is where it waits: for the category list, or inside the
  loop for the category of \<open>catId\<close>, with the ids that the loop has still to visit. A run
  that is over has completed or has thrown.
\<close>

datatype pending = AwaitList | AwaitDetail int "int list"

datatype status = Running pending | Completed | Thrown error

text \<open>The page and globals, and the runs started so far, in the order of their start.\<close>

record system =
  page :: app
  runs :: "status list"

text \<open>
  What can happen next: the start button is clicked; the response to the category-list
  request of run \<open>r\<close> arrives (with the random numbers that \<^verbatim>\<open>sampleSize\<close> then draws); the
  response to the pending category-detail request of run \<open>r\<close> arrives; a cell is clicked.
\<close>

datatype event =
  StartClick
| ListArrives nat "nat \<Rightarrow> nat" "int list response"
| DetailArrives nat "category response"
| CellClick string

text \<open>
  The end of the function, after the loop: render, hide the spinner, invert the flag and
  set the caption. An exception of \<^verbatim>\<open>renderCategories\<close> ends the run there.
\<close>

definition finish :: "nat \<Rightarrow> system \<Rightarrow> system" where
  "finish r s =
     (case renderCategories (categories (page s)) (page s) of
        Inl (e, st4) \<Rightarrow> \<lparr>page = st4, runs = (runs s)[r := Thrown e]\<rparr>
      | Inr st4 \<Rightarrow>
          (let st5 = hideLoadingView st4;
               st6 = st5\<lparr>gameStarted := \<not> gameStarted st5\<rparr>;
               st7 = (if gameStarted st6 then st6\<lparr>startText := restartCaption\<rparr>
                      else st6\<lparr>startText := startCaption\<rparr>)
           in \<lparr>page = st7, runs = (runs s)[r := Completed]\<rparr>))"

text \<open>
  The head of \<^verbatim>\<open>for (const catId of categoryIds)\<close>: with an id left, the request for it is
  sent and the run stops; with none left, the function goes on to its end.
\<close>

definition nextFetch :: "nat \<Rightarrow> int list \<Rightarrow> system \<Rightarrow> system" where
  "nextFetch r ids s =
     (case ids of
        [] \<Rightarrow> finish r s
      | catId # rest \<Rightarrow> s\<lparr>runs := (runs s)[r := Running (AwaitDetail catId rest)]\<rparr>)"

text \<open>
  One step. A click on the start button runs the function up to its first stop. The
  category list arriving lets the run compute its ids, assign \<^verbatim>\<open>categories = []\<close> and enter
  the loop. A category arriving lets the run push it, unless it is \<^verbatim>\<open>null\<close>, and go round
  the loop. A response for a run that is not waiting for it does not occur and changes
  nothing.
\<close>

fun step :: "system \<Rightarrow> event \<Rightarrow> system" where
  "step s StartClick =
     \<lparr>page = showLoadingView (page s), runs = runs s @ [Running AwaitList]\<rparr>"
| "step s (ListArrives r rnd resp) =
     (if r < length (runs s) \<and> runs s ! r = Running AwaitList
      then (let categoryIds = getCategoriesIds rnd resp
            in nextFetch r categoryIds (s\<lparr>page := (page s)\<lparr>categories := []\<rparr>\<rparr>))
      else s)"
| "step s (DetailArrives r resp) =
     (if r < length (runs s)
      then (case runs s ! r of
              Running (AwaitDetail catId rest) \<Rightarrow>
                (case getCategory resp of
                   None \<Rightarrow> nextFetch r rest s
                 | Some category \<Rightarrow>
                     nextFetch r rest
                       (s\<lparr>page := (page s)\<lparr>categories := categories (page s) @ [category]\<rparr>\<rparr>))
            | _ \<Rightarrow> s)
      else s)"
| "step s (CellClick ident) = s\<lparr>page := dispatch (page s) ident\<rparr>"

definition exec :: "system \<Rightarrow> event list \<Rightarrow> system" where
  "exec s evs = foldl step s evs"

text \<open>
  What one run meets outside the script: the outcome of the category-list request, the
  random numbers, and the outcome of the \<open>k\<close>-th category-detail request, made for a
  given id.
\<close>

record world =
  listResponse :: "int list response"
  random :: "nat \<Rightarrow> nat"
  detailResponse :: "nat \<Rightarrow> int \<Rightarrow> category response"

text \<open>
  The events of run \<open>r\<close> in a world, from the click that starts it to its last response,
  with nothing between them: the run is not overlapped by another run, and no cell is
  clicked while it waits.
\<close>

definition detailEvents :: "nat \<Rightarrow> world \<Rightarrow> nat \<Rightarrow> int list \<Rightarrow> event list" where
  "detailEvents r w k ids =
     map (\<lambda>(n, catId). DetailArrives r (detailResponse w n catId)) (enumerate k ids)"

definition runEvents :: "nat \<Rightarrow> world \<Rightarrow> event list" where
  "runEvents r w =
     StartClick # ListArrives r (random w) (listResponse w)
       # detailEvents r w 0 (getCategoriesIds (random w) (listResponse w))"

text \<open>
  \<open>setupAndStart w st\<close> is the function run alone in a world, from the state \<open>st\<close> and with
  no other run started before: \<open>Inr\<close> of the state it ends in when it completes, \<open>Inl\<close> of the
  exception and that state when it throws.
\<close>

definition setupAndStart :: "world \<Rightarrow> app \<Rightarrow> (error \<times> app) + app" where
  "setupAndStart w st =
     (let s = exec \<lparr>page = st, runs = []\<rparr> (runEvents 0 w)
      in case runs s of
           [Thrown e] \<Rightarrow> Inl (e, page s)
         | _ \<Rightarrow> Inr (page s))"

section \<open>Notions used to state the properties\<close>

text \<open>The board has a clue at position \<open>(i, j)\<close>, and the reveal state of that clue.\<close>

definition hasClue :: "app \<Rightarrow> nat \<Rightarrow> nat \<Rightarrow> bool" where
  "hasClue st i j = (i < length (categories st) \<and> j < length (clues (categories st ! i)))"

definition showingAt :: "app \<Rightarrow> nat \<Rightarrow> nat \<Rightarrow> string option" where
  "showingAt st i j = showing (clues (categories st ! i) ! j)"

text \<open>The three reveal states and their order: hidden, question, answer.\<close>

definition revealState :: "string option \<Rightarrow> bool" where
  "revealState s = (s = None \<or> s = Some ''question'' \<or> s = Some ''answer'')"

definition revealRank :: "string option \<Rightarrow> nat" where
  "revealRank s = (if s = None then 0 else if s = Some ''question'' then 1 else 2)"

text \<open>One click takes a state to itself or to the next one.\<close>

definition revealStep :: "string option \<Rightarrow> string option \<Rightarrow> bool" where
  "revealStep s s' =
     (s' = s \<or> (s = None \<and> s' = Some ''question'') \<or> (s = Some ''question'' \<and> s' = Some ''answer''))"

text \<open>The board after \<^verbatim>\<open>clue.showing = v\<close> at position \<open>(i, j)\<close>.\<close>

definition withShowing :: "nat \<Rightarrow> nat \<Rightarrow> string option \<Rightarrow> category list \<Rightarrow> category list" where
  "withShowing i j v cats =
     cats[i := (cats ! i)\<lparr>clues := (clues (cats ! i))[j := (clues (cats ! i) ! j)\<lparr>showing := v\<rparr>]\<rparr>]"

text \<open>
  The categories whose fetch succeeded, in the order of the ids: request number \<open>k\<close> is
  made for the \<open>k\<close>-th id, and its category is kept when \<^verbatim>\<open>getCategory\<close> did not return
  \<^verbatim>\<open>null\<close>.
\<close>

definition succeeded :: "world \<Rightarrow> int list \<Rightarrow> category list" where
  "succeeded w ids =
     List.map_filter (\<lambda>(k, catId). getCategory (detailResponse w k catId)) (enumerate 0 ids)"

text \<open>The cell that \<^verbatim>\<open>renderCategories\<close> writes for category \<open>catIdx\<close> in row \<open>clueIdx\<close>.\<close>

definition maskedCell :: "nat \<Rightarrow> nat \<Rightarrow> td" where
  "maskedCell clueIdx catIdx = \<lparr>td_id = cellId catIdx clueIdx, td_text = ''?'', td_class = []\<rparr>"

text \<open>
  The table body for a board of \<open>n\<close> categories: \<^verbatim>\<open>NUM_QUESTIONS_PER_CAT\<close> rows of \<open>n\<close>
  masked cells. A board is titled when each of its categories has a string for a title.
\<close>

definition grid :: "nat \<Rightarrow> td list list" where
  "grid n = map (\<lambda>clueIdx. map (maskedCell clueIdx) [0..<n]) [0..<NUM_QUESTIONS_PER_CAT]"

definition titled :: "category list \<Rightarrow> bool" where
  "titled cats = list_all (\<lambda>c. title c \<noteq> None) cats"

section \<open>A small board\<close>

text \<open>
  Two categories, the first with six clues, one of them carrying \<^verbatim>\<open>"answer"\<close> in
  \<^verbatim>\<open>showing\<close>, the second with three clues only; and the page state with the two on the
  board and rendered.
\<close>

definition mathCategory :: category where
  "mathCategory =
     \<lparr>title = Some ''Math'',
      clues = [\<lparr>question = ''2+2'', answer = ''4'', showing = None\<rparr>,
               \<lparr>question = ''1+1'', answer = ''2'', showing = Some ''answer''\<rparr>,
               \<lparr>question = ''3+3'', answer = ''6'', showing = None\<rparr>,
               \<lparr>question = ''4+4'', answer = ''8'', showing = None\<rparr>,
               \<lparr>question = ''5+5'', answer = ''10'', showing = None\<rparr>,
               \<lparr>question = ''6+6'', answer = ''12'', showing = None\<rparr>]\<rparr>"

definition shortCategory :: category where
  "shortCategory =
     \<lparr>title = Some ''Literature'',
      clues = [\<lparr>question = ''Hamlet Author'', answer = ''Shakespeare'', showing = None\<rparr>,
               \<lparr>question = ''Bell Jar Author'', answer = ''Plath'', showing = None\<rparr>,
               \<lparr>question = ''Emma Author'', answer = ''Austen'', showing = None\<rparr>]\<rparr>"

definition blankApp :: app where
  "blankApp =
     \<lparr>categories = [], gameStarted = False, thead = [], tbody = [], spinner = False,
      startText = startCaption\<rparr>"

definition smallBoard :: "category list" where
  "smallBoard = [mathCategory, shortCategory]"

definition smallApp :: app where
  "smallApp =
     (case renderCategories smallBoard (blankApp\<lparr>categories := smallBoard\<rparr>) of
        Inl (e, st) \<Rightarrow> st
      | Inr st \<Rightarrow> st)"

text \<open>
  Worlds for single runs. In \<open>shortWorld\<close> the service lists one category and answers with
  the three-clue category. In \<open>failingWorld\<close> every request fails. In \<open>mixedWorld\<close> the
  service lists eight ids and the request for id 3 fails. In \<open>untitledWorld\<close> the category
  sent has no title.
\<close>

definition zeroRandom :: "nat \<Rightarrow> nat" where
  "zeroRandom k = 0"

definition stepRandom :: "nat \<Rightarrow> nat" where
  "stepRandom k = 3 * k + 2"

definition untitledCategory :: category where
  "untitledCategory = \<lparr>title = None, clues = []\<rparr>"



definition mixedWorld :: world where
  "mixedWorld =
     \<lparr>listResponse = Success [1, 2, 3, 4, 5, 6, 7, 8], random = stepRandom,
      detailResponse = (\<lambda>k catId. if catId = 3 then Failure else Success mathCategory)\<rparr>"

definition untitledWorld :: world where
  "untitledWorld =
     \<lparr>listResponse = Success [1], random = zeroRandom,
      detailResponse = (\<lambda>k catId. Success untitledCategory)\<rparr>"


text \<open>
  A double click on the start button. In \<open>sixWorld\<close> the service lists six ids and answers
  every category-detail request with the six-clue category. Both clicks come before any
  response; then the two category lists arrive, then the six categories of the first run,
  then the six categories of the second run.
\<close>

definition idle :: system where
  "idle = \<lparr>page = blankApp, runs = []\<rparr>"

definition sixWorld :: world where
  "sixWorld =
     \<lparr>listResponse = Success [1, 2, 3, 4, 5, 6], random = zeroRandom,
      detailResponse = (\<lambda>k catId. Success mathCategory)\<rparr>"

definition doubleClickEvents :: "event list" where
  "doubleClickEvents =
     [StartClick, StartClick,
      ListArrives 0 (random sixWorld) (listResponse sixWorld),
      ListArrives 1 (random sixWorld) (listResponse sixWorld)]
     @ detailEvents 0 sixWorld 0 (getCategoriesIds (random sixWorld) (listResponse sixWorld))
     @ detailEvents 1 sixWorld 0 (getCategoriesIds (random sixWorld) (listResponse sixWorld))"

text \<open>What \<^verbatim>\<open>getCategory\<close> returns for the six-clue category.\<close>

definition mathFetched :: category where
  "mathFetched =
     \<lparr>title = Some ''Math'',
      clues = [\<lparr>question = ''2+2'', answer = ''4'', showing = None\<rparr>,
               \<lparr>question = ''1+1'', answer = ''2'', showing = None\<rparr>,
               \<lparr>question = ''3+3'', answer = ''6'', showing = None\<rparr>,
               \<lparr>question = ''4+4'', answer = ''8'', showing = None\<rparr>,
               \<lparr>question = ''5+5'', answer = ''10'', showing = None\<rparr>]\<rparr>"

section \<open>Decimal indices and cell ids\<close>

lemma isDigit_digit: "d < 10 \<Longrightarrow> isDigit (digit d)"
  by (simp add: isDigit_def digit_def)

lemma digitValue_digit: "d < 10 \<Longrightarrow> digitValue (digit d) = d"
  by (simp add: digitValue_def digit_def)

lemma of_char_digit: "d < 10 \<Longrightarrow> (of_char (digit d) :: nat) = 48 + d"
  by (simp add: digit_def)

lemma digit_eq_zero: "d < 10 \<Longrightarrow> digit d = CHR ''0'' \<longleftrightarrow> d = 0"
proof -
  assume d: "d < 10"
  have "(digit d = CHR ''0'') = ((of_char (digit d) :: nat) = of_char (CHR ''0''))"
    by (simp only: of_char_eq_iff)
  then show ?thesis using d by (simp add: of_char_digit)
qed

lemma digit_not_dash: "d < 10 \<Longrightarrow> digit d \<noteq> CHR ''-''"
proof -
  assume d: "d < 10"
  have "(digit d = CHR ''-'') = ((of_char (digit d) :: nat) = of_char (CHR ''-''))"
    by (simp only: of_char_eq_iff)
  then show ?thesis using d by (simp add: of_char_digit)
qed

lemma toString_nonempty: "toString n \<noteq> []"
  by (subst toString.simps) simp

lemma toString_digits: "list_all isDigit (toString n)"
proof (induction n rule: toString.induct)
  case (1 n)
  show ?case
  proof (cases "n < 10")
    case True
    then show ?thesis by (subst toString.simps) (simp add: isDigit_digit)
  next
    case False
    with 1 show ?thesis by (subst toString.simps) (simp add: isDigit_digit)
  qed
qed

lemma toString_no_dash: "CHR ''-'' \<notin> set (toString n)"
proof (induction n rule: toString.induct)
  case (1 n)
  show ?case
  proof (cases "n < 10")
    case True
    then show ?thesis using digit_not_dash [of n] by (subst toString.simps) auto
  next
    case False
    with 1 show ?thesis using digit_not_dash [of "n mod 10"] by (subst toString.simps) auto
  qed
qed

lemma hd_toString: "hd (toString n) = CHR ''0'' \<longleftrightarrow> n = 0"
proof (induction n rule: toString.induct)
  case (1 n)
  show ?case
  proof (cases "n < 10")
    case True
    then show ?thesis by (subst toString.simps) (simp add: digit_eq_zero)
  next
    case False
    then have "hd (toString n) = hd (toString (n div 10))"
      by (subst toString.simps) (simp add: toString_nonempty)
    with 1 False show ?thesis by simp
  qed
qed

lemma foldl_toString: "foldl (\<lambda>acc c. 10 * acc + digitValue c) 0 (toString n) = n"
proof (induction n rule: toString.induct)
  case (1 n)
  show ?case
  proof (cases "n < 10")
    case True
    then show ?thesis by (subst toString.simps) (simp add: digitValue_digit)
  next
    case False
    with 1 show ?thesis by (subst toString.simps) (simp add: digitValue_digit)
  qed
qed

lemma toString_zero: "toString 0 = ''0''"
  using digit_eq_zero [of 0] by (subst toString.simps) simp

lemma arrayIndex_toString: "arrayIndex (toString n) = Some n"
  using hd_toString [of n]
  by (auto simp: arrayIndex_def toString_nonempty toString_digits foldl_toString toString_zero)

lemma split_no_sep: "sep \<notin> set s \<Longrightarrow> split sep s = [s]"
  by (induction s) auto

lemma split_append: "sep \<notin> set a \<Longrightarrow> split sep (a @ sep # b) = a # split sep b"
  by (induction a) auto

lemma split_cellId: "split CHR ''-'' (cellId i j) = [toString i, toString j]"
  by (simp add: cellId_def split_append split_no_sep toString_no_dash)

lemma getProp_toString: "getProp xs (toString i) = (if i < length xs then Some (xs ! i) else None)"
  by (simp add: getProp_def arrayIndex_toString)

lemma modProp_toString: "modProp xs (toString i) f = (if i < length xs then xs[i := f (xs ! i)] else xs)"
  by (simp add: modProp_def arrayIndex_toString)

lemma toString_inj: "toString m = toString n \<Longrightarrow> m = n"
proof -
  assume eq: "toString m = toString n"
  have "arrayIndex (toString m) = arrayIndex (toString n)"
    by (simp only: eq)
  then show ?thesis
    by (simp only: arrayIndex_toString option.inject)
qed

lemma cellId_inj: "cellId i j = cellId i' j' \<Longrightarrow> i = i' \<and> j = j'"
proof -
  assume eq: "cellId i j = cellId i' j'"
  have "split CHR ''-'' (cellId i j) = split CHR ''-'' (cellId i' j')"
    by (simp only: eq)
  then have "toString i = toString i' \<and> toString j = toString j'"
    by (simp only: split_cellId list.inject)
  then show ?thesis
    by (blast dest: toString_inj)
qed

section \<open>What a click does\<close>

lemma setShowing_cellId:
  "setShowing (toString i) (toString j) v cats =
     (if i < length cats \<and> j < length (clues (cats ! i)) then withShowing i j v cats else cats)"
  by (simp add: setShowing_def withShowing_def modProp_toString list_update_same_conv)

lemma handleClick_cellId:
  "handleClick (cellId i j) st =
     (if hasClue st i j then
        (if falsy (showingAt st i j) then
           Inr (st\<lparr>tbody := onFirst (cellId i j) (setText (question (clues (categories st ! i) ! j))) (tbody st),
                   categories := withShowing i j (Some ''question'') (categories st)\<rparr>)
         else if showingAt st i j = Some ''question'' then
           Inr (st\<lparr>tbody := onFirst (cellId i j) (addClass ''showing-answer'')
                               (onFirst (cellId i j) (setText (answer (clues (categories st ! i) ! j))) (tbody st)),
                   categories := withShowing i j (Some ''answer'') (categories st)\<rparr>)
         else Inr st)
      else Inl TypeError)"
  by (simp add: handleClick_def split_cellId getProp_toString setShowing_cellId hasClue_def showingAt_def)

lemma modProp_cases:
  "modProp xs key f = xs \<or> (\<exists>i. arrayIndex key = Some i \<and> i < length xs \<and> modProp xs key f = xs[i := f (xs ! i)])"
  by (auto simp: modProp_def split: option.splits)

lemma getProp_Some:
  "getProp xs key = Some x \<Longrightarrow> \<exists>i. arrayIndex key = Some i \<and> i < length xs \<and> x = xs ! i"
  by (auto simp: getProp_def split: option.splits if_splits)

lemma handleClick_cases:
  assumes "handleClick ident st = Inr st'"
  shows "st' = st \<or>
    (\<exists>i j. hasClue st i j \<and>
       ((falsy (showingAt st i j) \<and>
          st' = st\<lparr>tbody := onFirst ident (setText (question (clues (categories st ! i) ! j))) (tbody st),
                   categories := withShowing i j (Some ''question'') (categories st)\<rparr>)
      \<or> (showingAt st i j = Some ''question'' \<and>
          st' = st\<lparr>tbody := onFirst ident (addClass ''showing-answer'')
                               (onFirst ident (setText (answer (clues (categories st ! i) ! j))) (tbody st)),
                   categories := withShowing i j (Some ''answer'') (categories st)\<rparr>)))"
proof -
  from assms obtain catId clueId rest where sp: "split CHR ''-'' ident = catId # clueId # rest"
    by (auto simp: handleClick_def split: list.splits)
  from assms sp obtain cat where cat: "getProp (categories st) catId = Some cat"
    by (auto simp: handleClick_def split: option.splits)
  from assms sp cat obtain clue where clue: "getProp (clues cat) clueId = Some clue"
    by (auto simp: handleClick_def split: option.splits)
  from getProp_Some [OF cat] obtain i where i: "arrayIndex catId = Some i" "i < length (categories st)" "cat = categories st ! i"
    by blast
  from getProp_Some [OF clue] obtain j where j: "arrayIndex clueId = Some j" "j < length (clues cat)" "clue = clues cat ! j"
    by blast
  have upd: "setShowing catId clueId v (categories st) = withShowing i j v (categories st)" for v
    using i j by (simp add: setShowing_def withShowing_def modProp_def)
  have hc: "hasClue st i j" using i j by (simp add: hasClue_def)
  have sh: "showingAt st i j = showing clue" using i j by (simp add: showingAt_def)
  have red: "handleClick ident st =
      (if falsy (showing clue) then
         Inr (st\<lparr>tbody := onFirst ident (setText (question clue)) (tbody st),
                 categories := withShowing i j (Some ''question'') (categories st)\<rparr>)
       else if showing clue = Some ''question'' then
         Inr (st\<lparr>tbody := onFirst ident (addClass ''showing-answer'')
                             (onFirst ident (setText (answer clue)) (tbody st)),
                 categories := withShowing i j (Some ''answer'') (categories st)\<rparr>)
       else Inr st)"
    by (simp add: handleClick_def sp cat clue upd)
  have cl: "clue = clues (categories st ! i) ! j" using i j by simp
  show ?thesis
  proof (cases "falsy (showing clue)")
    case True
    with red assms have "st' = st\<lparr>tbody := onFirst ident (setText (question clue)) (tbody st),
                 categories := withShowing i j (Some ''question'') (categories st)\<rparr>"
      by simp
    with True hc sh cl show ?thesis
      by (intro disjI2 exI [of _ i] exI [of _ j]) simp
  next
    case False
    show ?thesis
    proof (cases "showing clue = Some ''question''")
      case True
      with False red assms have "st' = st\<lparr>tbody := onFirst ident (addClass ''showing-answer'')
                             (onFirst ident (setText (answer clue)) (tbody st)),
                 categories := withShowing i j (Some ''answer'') (categories st)\<rparr>"
        by simp
      with True hc sh cl show ?thesis
      by (intro disjI2 exI [of _ i] exI [of _ j]) simp
    next
      case no: False
      with False red assms show ?thesis by simp
    qed
  qed
qed

lemma length_withShowing: "length (withShowing i j v cats) = length cats"
  by (simp add: withShowing_def)

lemma title_withShowing:
  "c < length cats \<Longrightarrow> title (withShowing i j v cats ! c) = title (cats ! c)"
  by (cases "i < length cats") (simp_all add: withShowing_def nth_list_update not_less)

lemma length_clues_withShowing:
  "c < length cats \<Longrightarrow> length (clues (withShowing i j v cats ! c)) = length (clues (cats ! c))"
  by (cases "i < length cats") (simp_all add: withShowing_def nth_list_update not_less)

lemma clue_withShowing:
  "c < length cats \<Longrightarrow> q < length (clues (cats ! c)) \<Longrightarrow>
   clues (withShowing i j v cats ! c) ! q =
     (if c = i \<and> q = j then (clues (cats ! c) ! q)\<lparr>showing := v\<rparr> else clues (cats ! c) ! q)"
  by (cases "i < length cats"; cases "j < length (clues (cats ! i))")
     (auto simp: withShowing_def nth_list_update not_less)

lemma handleClick_categories:
  assumes "handleClick (cellId i j) st = Inr st'"
  shows "categories st' = categories st \<or> (\<exists>v. categories st' = withShowing i j v (categories st))"
  using assms by (auto simp: handleClick_cellId split: if_splits)

lemma handleClick_gameStarted:
  assumes "handleClick (cellId i j) st = Inr st'"
  shows "gameStarted st' = gameStarted st"
  using assms by (auto simp: handleClick_cellId split: if_splits)

lemma hasClue_withShowing:
  "hasClue (st\<lparr>tbody := b, categories := withShowing i' j' v (categories st)\<rparr>) i j = hasClue st i j"
  by (auto simp: hasClue_def length_withShowing length_clues_withShowing)

lemma showingAt_withShowing:
  "hasClue st i j \<Longrightarrow>
   showingAt (st\<lparr>tbody := b, categories := withShowing i' j' v (categories st)\<rparr>) i j =
     (if i = i' \<and> j = j' then v else showingAt st i j)"
  by (simp add: hasClue_def showingAt_def clue_withShowing)

lemma dispatch_cases:
  "dispatch st ev = st \<or>
   (\<exists>i j b. hasClue st i j \<and>
      ((falsy (showingAt st i j) \<and>
          dispatch st ev = st\<lparr>tbody := b, categories := withShowing i j (Some ''question'') (categories st)\<rparr>)
     \<or> (showingAt st i j = Some ''question'' \<and>
          dispatch st ev = st\<lparr>tbody := b, categories := withShowing i j (Some ''answer'') (categories st)\<rparr>)))"
proof (cases "handleClick ev st")
  case (Inl e)
  then show ?thesis by (simp add: dispatch_def)
next
  case (Inr st')
  then have d: "dispatch st ev = st'" by (simp add: dispatch_def)
  from handleClick_cases [OF Inr] show ?thesis
    unfolding d by blast
qed

lemma dispatch_hasClue: "hasClue (dispatch st ev) i j = hasClue st i j"
  using dispatch_cases [of st ev] by (auto simp: hasClue_withShowing)

lemma falsy_revealState: "revealState s \<Longrightarrow> falsy s \<longleftrightarrow> s = None"
  by (auto simp: revealState_def falsy_def)

lemma dispatch_revealStep:
  assumes "hasClue st i j" and "revealState (showingAt st i j)"
  shows "revealStep (showingAt st i j) (showingAt (dispatch st ev) i j)"
proof -
  from dispatch_cases [of st ev]
  consider "dispatch st ev = st"
    | i' j' b where "hasClue st i' j'" "falsy (showingAt st i' j')"
        "dispatch st ev = st\<lparr>tbody := b, categories := withShowing i' j' (Some ''question'') (categories st)\<rparr>"
    | i' j' b where "hasClue st i' j'" "showingAt st i' j' = Some ''question''"
        "dispatch st ev = st\<lparr>tbody := b, categories := withShowing i' j' (Some ''answer'') (categories st)\<rparr>"
    by blast
  then show ?thesis
  proof cases
    case 1
    then show ?thesis by (simp add: revealStep_def)
  next
    case 2
    with assms show ?thesis
      by (auto simp: showingAt_withShowing revealStep_def falsy_revealState)
  next
    case 3
    with assms show ?thesis
      by (auto simp: showingAt_withShowing revealStep_def)
  qed
qed

lemma revealStep_state: "revealState s \<Longrightarrow> revealStep s s' \<Longrightarrow> revealState s'"
  by (auto simp: revealState_def revealStep_def)

lemma revealStep_rank: "revealStep s s' \<Longrightarrow> revealRank s \<le> revealRank s'"
  by (auto simp: revealRank_def revealStep_def)

lemma dispatchAll_snoc: "dispatchAll st (evs @ [ev]) = dispatch (dispatchAll st evs) ev"
  by (simp add: dispatchAll_def)

lemma dispatchAll_invariant:
  assumes "hasClue st i j" and "revealState (showingAt st i j)"
  shows "hasClue (dispatchAll st evs) i j \<and>
         revealState (showingAt (dispatchAll st evs) i j) \<and>
         revealRank (showingAt st i j) \<le> revealRank (showingAt (dispatchAll st evs) i j)"
proof (induction evs rule: rev_induct)
  case Nil
  from assms show ?case by (simp add: dispatchAll_def)
next
  case (snoc ev evs)
  let ?m = "dispatchAll st evs"
  from snoc have h: "hasClue ?m i j" and r: "revealState (showingAt ?m i j)"
    and le: "revealRank (showingAt st i j) \<le> revealRank (showingAt ?m i j)"
    by simp_all
  have step: "revealStep (showingAt ?m i j) (showingAt (dispatch ?m ev) i j)"
    by (rule dispatch_revealStep [OF h r])
  from h have "hasClue (dispatch ?m ev) i j" by (simp add: dispatch_hasClue)
  moreover from r step have "revealState (showingAt (dispatch ?m ev) i j)"
    by (rule revealStep_state)
  moreover from le revealStep_rank [OF step]
  have "revealRank (showingAt st i j) \<le> revealRank (showingAt (dispatch ?m ev) i j)"
    by simp
  ultimately show ?case by (simp add: dispatchAll_snoc)
qed

lemma dispatchAll_passes_question:
  assumes "hasClue st i j" and "showingAt st i j = None"
  shows "showingAt (dispatchAll st evs) i j = Some ''answer'' \<Longrightarrow>
         \<exists>k < length evs. showingAt (dispatchAll st (take k evs)) i j = Some ''question''"
proof (induction evs rule: rev_induct)
  case Nil
  with assms show ?case by (simp add: dispatchAll_def)
next
  case (snoc ev evs)
  let ?m = "dispatchAll st evs"
  from assms have rs: "revealState (showingAt st i j)" by (simp add: revealState_def)
  from dispatchAll_invariant [OF assms(1) rs, of evs]
  have h: "hasClue ?m i j" and r: "revealState (showingAt ?m i j)" by simp_all
  have step: "revealStep (showingAt ?m i j) (showingAt (dispatch ?m ev) i j)"
    by (rule dispatch_revealStep [OF h r])
  from snoc.prems have fin: "showingAt (dispatch ?m ev) i j = Some ''answer''"
    by (simp add: dispatchAll_snoc)
  from step fin consider "showingAt ?m i j = Some ''answer''" | "showingAt ?m i j = Some ''question''"
    by (auto simp: revealStep_def)
  then show ?case
  proof cases
    case 1
    from snoc.IH [OF 1] obtain k where "k < length evs"
      "showingAt (dispatchAll st (take k evs)) i j = Some ''question''" by blast
    then show ?thesis by (intro exI [of _ k]) simp
  next
    case 2
    then show ?thesis by (intro exI [of _ "length evs"]) simp
  qed
qed

section \<open>What rendering writes\<close>

lemma bodyRow_eq: "bodyRow clueIdx k cats = map (maskedCell clueIdx) [k..<k + length cats]"
proof (induction cats arbitrary: k)
  case Nil
  show ?case by simp
next
  case (Cons c cats)
  have "k < k + length (c # cats)"
    by simp
  then have "[k..<k + length (c # cats)] = k # [Suc k..<k + length (c # cats)]"
    by (rule upt_conv_Cons)
  then have "[k..<k + length (c # cats)] = k # [Suc k..<Suc k + length cats]"
    by simp
  with Cons [of "Suc k"] show ?case by (simp add: maskedCell_def)
qed

lemma bodyLoop_eq:
  "clueIdx \<le> NUM_QUESTIONS_PER_CAT \<Longrightarrow>
   bodyLoop clueIdx cats rows =
     rows @ map (\<lambda>r. bodyRow r 0 cats) [clueIdx..<NUM_QUESTIONS_PER_CAT]"
proof (induction clueIdx cats rows rule: bodyLoop.induct)
  case (1 clueIdx cats rows)
  show ?case
  proof (cases "clueIdx < NUM_QUESTIONS_PER_CAT")
    case True
    then have "[clueIdx..<NUM_QUESTIONS_PER_CAT] = clueIdx # [Suc clueIdx..<NUM_QUESTIONS_PER_CAT]"
      by (simp add: upt_conv_Cons)
    with True 1 show ?thesis
      by (subst bodyLoop.simps) simp
  next
    case False
    with 1 show ?thesis by (subst bodyLoop.simps) simp
  qed
qed

lemma bodyLoop_grid: "bodyLoop 0 cats [] = grid (length cats)"
  by (simp add: bodyLoop_eq bodyRow_eq grid_def)

lemma headerRow_eq:
  "headerRow cats =
     (if titled cats then Inr (map (\<lambda>c. toUpperCase (the (title c))) cats) else Inl TypeError)"
  by (induction cats) (auto simp: titled_def split: option.splits)

lemma renderCategories_eq:
  "renderCategories cats st =
     (if titled cats
      then Inr (st\<lparr>thead := [map (\<lambda>c. toUpperCase (the (title c))) cats],
                   tbody := grid (length cats)\<rparr>)
      else Inl (TypeError, st\<lparr>thead := [], tbody := []\<rparr>))"
  by (simp add: renderCategories_def Let_def headerRow_eq bodyLoop_grid)

lemma header_titles:
  "titled cats \<Longrightarrow>
   map Some (map (\<lambda>c. toUpperCase (the (title c))) cats) =
     map (\<lambda>c. map_option toUpperCase (title c)) cats"
  by (induction cats) (auto simp: titled_def)

lemma categories_renderCategories:
  "renderCategories cats st = Inr st' \<Longrightarrow> categories st' = categories st"
  by (auto simp: renderCategories_eq split: if_splits)

lemma concat_grid:
  "concat (map (\<lambda>r. map (f r) ys) xs) = map (\<lambda>(r, c). f r c) (List.product xs ys)"
  by (induction xs) simp_all

lemma grid_ids:
  "map td_id (concat (grid n)) =
     map (\<lambda>(r, c). cellId c r) (List.product [0..<NUM_QUESTIONS_PER_CAT] [0..<n])"
  by (simp add: grid_def concat_grid maskedCell_def case_prod_unfold comp_def)

lemma grid_ids_distinct: "distinct (map td_id (concat (grid n)))"
proof -
  have "inj_on (\<lambda>(r, c). cellId c r) A" for A :: "(nat \<times> nat) set"
    by (auto simp: inj_on_def dest: cellId_inj)
  then show ?thesis
    unfolding grid_ids by (simp add: distinct_map distinct_product)
qed

lemma grid_ids_set:
  "set (map td_id (concat (grid n))) =
     {cellId c r | c r. c < n \<and> r < NUM_QUESTIONS_PER_CAT}"
  unfolding grid_ids by fastforce

lemma grid_texts:
  "map td_text (concat (grid n)) = replicate (NUM_QUESTIONS_PER_CAT * n) ''?''"
proof -
  have "map td_text (map (maskedCell r) [0..<n]) = replicate n ''?''" for r
    by (simp add: maskedCell_def comp_def map_replicate_const)
  then have "map td_text (concat (map (\<lambda>clueIdx. map (maskedCell clueIdx) [0..<n]) xs)) =
      replicate (length xs * n) ''?''" for xs :: "nat list"
    by (induction xs) (simp_all add: replicate_add)
  from this [of "[0..<NUM_QUESTIONS_PER_CAT]"] show ?thesis by (simp add: grid_def)
qed

lemma grid_cell:
  "row < NUM_QUESTIONS_PER_CAT \<Longrightarrow> catIdx < n \<Longrightarrow>
   row < length (grid n) \<and> catIdx < length (grid n ! row) \<and>
   grid n ! row ! catIdx = maskedCell row catIdx"
  by (simp add: grid_def)

lemma grid_cell_mem:
  "row < NUM_QUESTIONS_PER_CAT \<Longrightarrow> catIdx < n \<Longrightarrow> maskedCell row catIdx \<in> set (concat (grid n))"
  by (fastforce simp: grid_def)

section \<open>The small board\<close>

lemma titled_smallBoard: "titled smallBoard"
  by (simp add: titled_def smallBoard_def mathCategory_def shortCategory_def)

lemma smallApp_rendered:
  "renderCategories smallBoard (blankApp\<lparr>categories := smallBoard\<rparr>) = Inr smallApp"
  by (simp add: smallApp_def renderCategories_eq titled_smallBoard)

lemma categories_smallApp: "categories smallApp = smallBoard"
  using categories_renderCategories [OF smallApp_rendered] by simp

lemma smallApp_shape:
  "length (categories smallApp) = 2 \<and> length (clues (categories smallApp ! 0)) = 6 \<and>
   length (clues (categories smallApp ! 1)) = 3"
  by (simp add: categories_smallApp smallBoard_def mathCategory_def shortCategory_def)

lemma smallApp_showing:
  "showingAt smallApp 0 0 = None \<and> showingAt smallApp 0 1 = Some ''answer''"
  by (simp add: showingAt_def categories_smallApp smallBoard_def mathCategory_def)

lemma smallApp_render: "renderCategories (categories smallApp) smallApp = Inr smallApp"
  by (simp add: categories_smallApp)
     (simp add: smallApp_def renderCategories_eq titled_smallBoard)

section \<open>What the fetchers return\<close>

lemma slice_take: "slice 0 (int n) xs = take n xs"
  by (simp add: slice_def Let_def min_def)

lemma hideAll_eq: "hideAll cs = map (\<lambda>clue. clue\<lparr>showing := None\<rparr>) cs"
  by (induction cs) simp_all

lemma getCategory_Success:
  "getCategory (Success raw) =
     Some (raw\<lparr>clues := map (\<lambda>clue. clue\<lparr>showing := None\<rparr>) (take NUM_QUESTIONS_PER_CAT (clues raw))\<rparr>)"
  by (simp add: getCategory_def slice_take hideAll_eq)

lemma shuffleSelf_perm:
  "sz \<le> length array \<Longrightarrow>
   \<exists>ys. mset ys = mset array \<and> shuffleSelf rnd sz index array = take sz ys"
proof (induction rnd sz index array rule: shuffleSelf.induct)
  case (1 rnd sz index array)
  show ?case
  proof (cases "index < sz")
    case False
    then have "shuffleSelf rnd sz index array = take sz array"
      by (subst shuffleSelf.simps) simp
    then show ?thesis by blast
  next
    case True
    let ?rand = "index + rnd index mod (length array - index)"
    let ?array = "array[?rand := array ! index, index := array ! ?rand]"
    from True "1.prems" have i: "index < length array" by simp
    then have r: "?rand < length array"
      by (metis add_diff_inverse_nat less_imp_le_nat mod_less_divisor nat_add_left_cancel_less not_less zero_less_diff)
    have m: "mset ?array = mset array"
      using i r by (simp add: mset_swap)
    from "1.prems" have "sz \<le> length ?array" by simp
    from "1.IH" [OF True refl refl this]
    obtain ys where "mset ys = mset ?array" "shuffleSelf rnd sz (Suc index) ?array = take sz ys"
      by blast
    moreover from True have "shuffleSelf rnd sz index array = shuffleSelf rnd sz (Suc index) ?array"
      by (subst shuffleSelf.simps) (simp add: Let_def)
    ultimately show ?thesis using m by auto
  qed
qed

lemma sampleSize_perm:
  "\<exists>ys. mset ys = mset array \<and> sampleSize rnd array n = take (min n (length array)) ys"
  unfolding sampleSize_def by (rule shuffleSelf_perm) simp

section \<open>A run of setupAndStart, step by step\<close>

lemma exec_Nil: "exec s [] = s"
  by (simp add: exec_def)

lemma exec_Cons: "exec s (ev # evs) = exec (step s ev) evs"
  by (simp add: exec_def)

lemma finish_runs:
  "finish r \<lparr>page = p, runs = rs[r := x]\<rparr> = finish r \<lparr>page = p, runs = rs\<rparr>"
  by (simp add: finish_def Let_def split: sum.splits prod.splits)

lemma nextFetch_runs:
  "nextFetch r ids \<lparr>page = p, runs = rs[r := x]\<rparr> = nextFetch r ids \<lparr>page = p, runs = rs\<rparr>"
  by (cases ids) (simp_all add: nextFetch_def finish_runs)

lemma step_detail:
  assumes "r < length (runs s)"
  shows "step (nextFetch r (catId # rest) s) (DetailArrives r resp) =
     nextFetch r rest
       (s\<lparr>page := (page s)\<lparr>categories := categories (page s) @
          (case getCategory resp of None \<Rightarrow> [] | Some category \<Rightarrow> [category])\<rparr>\<rparr>)"
proof -
  obtain p rs where s: "s = \<lparr>page = p, runs = rs\<rparr>"
    by (cases s) simp
  from assms have r: "r < length rs"
    by (simp add: s)
  have n: "nextFetch r (catId # rest) s = \<lparr>page = p, runs = rs[r := Running (AwaitDetail catId rest)]\<rparr>"
    by (simp add: nextFetch_def s)
  show ?thesis
    unfolding n using r
    by (cases "getCategory resp") (simp_all add: s nextFetch_runs)
qed

lemma exec_detailEvents:
  "r < length (runs s) \<Longrightarrow>
   exec (nextFetch r ids s) (detailEvents r w k ids) =
     finish r (s\<lparr>page := (page s)\<lparr>categories := categories (page s) @
        List.map_filter (\<lambda>(n, catId). getCategory (detailResponse w n catId)) (enumerate k ids)\<rparr>\<rparr>)"
proof (induction ids arbitrary: s k)
  case Nil
  then show ?case
    by (simp add: detailEvents_def exec_Nil nextFetch_def)
next
  case (Cons catId rest)
  let ?new = "case getCategory (detailResponse w k catId) of None \<Rightarrow> [] | Some category \<Rightarrow> [category]"
  let ?s = "s\<lparr>page := (page s)\<lparr>categories := categories (page s) @ ?new\<rparr>\<rparr>"
  have ev: "detailEvents r w k (catId # rest) =
      DetailArrives r (detailResponse w k catId) # detailEvents r w (Suc k) rest"
    by (simp add: detailEvents_def)
  from Cons.prems have len: "r < length (runs ?s)"
    by simp
  have "exec (nextFetch r (catId # rest) s) (detailEvents r w k (catId # rest)) =
      exec (nextFetch r rest ?s) (detailEvents r w (Suc k) rest)"
    unfolding ev exec_Cons using Cons.prems by (simp only: step_detail)
  also have "\<dots> = finish r (?s\<lparr>page := (page ?s)\<lparr>categories := categories (page ?s) @
        List.map_filter (\<lambda>(n, catId). getCategory (detailResponse w n catId)) (enumerate (Suc k) rest)\<rparr>\<rparr>)"
    using len by (rule Cons.IH)
  finally show ?case
    by (simp split: option.splits)
qed

lemma exec_runEvents:
  "exec s (runEvents (length (runs s)) w) =
     finish (length (runs s))
       \<lparr>page = (showLoadingView (page s))
          \<lparr>categories := succeeded w (getCategoriesIds (random w) (listResponse w))\<rparr>,
        runs = runs s @ [Running AwaitList]\<rparr>"
proof -
  let ?r = "length (runs s)"
  let ?s1 = "\<lparr>page = (showLoadingView (page s))\<lparr>categories := []\<rparr>,
              runs = runs s @ [Running AwaitList]\<rparr>"
  let ?ids = "getCategoriesIds (random w) (listResponse w)"
  have "exec s (runEvents ?r w) = exec (nextFetch ?r ?ids ?s1) (detailEvents ?r w 0 ?ids)"
    by (simp add: runEvents_def exec_Cons Let_def)
  also have "\<dots> = finish ?r (?s1\<lparr>page := (page ?s1)\<lparr>categories := categories (page ?s1) @
        List.map_filter (\<lambda>(n, catId). getCategory (detailResponse w n catId)) (enumerate 0 ?ids)\<rparr>\<rparr>)"
    by (rule exec_detailEvents) simp
  finally show ?thesis
    by (simp add: succeeded_def)
qed

lemma run_alone:
  "exec s (runEvents (length (runs s)) w) =
     (let cats = succeeded w (getCategoriesIds (random w) (listResponse w))
      in if titled cats
         then \<lparr>page = (page s)\<lparr>categories := cats,
                  thead := [map (\<lambda>c. toUpperCase (the (title c))) cats],
                  tbody := grid (length cats), spinner := False,
                  gameStarted := \<not> gameStarted (page s),
                  startText := (if gameStarted (page s) then startCaption else restartCaption)\<rparr>,
                runs = runs s @ [Completed]\<rparr>
         else \<lparr>page = (page s)\<lparr>categories := cats, thead := [], tbody := [], spinner := True\<rparr>,
                runs = runs s @ [Thrown TypeError]\<rparr>)"
  by (simp add: exec_runEvents finish_def Let_def renderCategories_eq
      showLoadingView_def hideLoadingView_def)

lemma setupAndStart_eq:
  "setupAndStart w st =
     (let cats = succeeded w (getCategoriesIds (random w) (listResponse w))
      in if titled cats
         then Inr (st\<lparr>categories := cats,
                      thead := [map (\<lambda>c. toUpperCase (the (title c))) cats],
                      tbody := grid (length cats), spinner := False,
                      gameStarted := \<not> gameStarted st,
                      startText := (if gameStarted st then startCaption else restartCaption)\<rparr>)
         else Inl (TypeError, st\<lparr>categories := cats, thead := [], tbody := [], spinner := True\<rparr>))"
  using run_alone [of "\<lparr>page = st, runs = []\<rparr>" w]
  by (simp add: setupAndStart_def Let_def)



lemma length_getCategoriesIds:
  "length (getCategoriesIds rnd (Success pool)) = min NUM_CATEGORIES (length pool)"
proof -
  from sampleSize_perm [of pool rnd NUM_CATEGORIES]
  obtain ys where ys: "mset ys = mset pool"
    "sampleSize rnd pool NUM_CATEGORIES = take (min NUM_CATEGORIES (length pool)) ys"
    by blast
  from ys(1) have "length ys = length pool"
    by (rule mset_eq_length)
  with ys(2) show ?thesis
    by (simp add: getCategoriesIds_def)
qed


lemma mset_take_subset: "mset (take n ys) \<subseteq># mset ys"
proof -
  have "mset ys = mset (take n ys) + mset (drop n ys)"
    by (simp flip: mset_append)
  then show ?thesis
    by (metis mset_subset_eq_add_left)
qed

lemma mset_getCategoriesIds: "mset (getCategoriesIds rnd (Success pool)) \<subseteq># mset pool"
proof -
  from sampleSize_perm [of pool rnd NUM_CATEGORIES]
  obtain ys where ys: "mset ys = mset pool"
    "sampleSize rnd pool NUM_CATEGORIES = take (min NUM_CATEGORIES (length pool)) ys"
    by blast
  have "mset (take (min NUM_CATEGORIES (length pool)) ys) \<subseteq># mset ys"
    by (rule mset_take_subset)
  with ys show ?thesis
    by (simp add: getCategoriesIds_def)
qed

lemma distinct_getCategoriesIds:
  "distinct pool \<Longrightarrow> distinct (getCategoriesIds rnd (Success pool))"
proof -
  assume d: "distinct pool"
  from sampleSize_perm [of pool rnd NUM_CATEGORIES]
  obtain ys where ys: "mset ys = mset pool"
    "sampleSize rnd pool NUM_CATEGORIES = take (min NUM_CATEGORIES (length pool)) ys"
    by blast
  from ys(1) d have "distinct ys"
    by (metis mset_eq_imp_distinct_iff)
  then have "distinct (take (min NUM_CATEGORIES (length pool)) ys)"
    by (rule distinct_take)
  with ys(2) show ?thesis
    by (simp add: getCategoriesIds_def)
qed

lemma succeeded_member:
  "c \<in> set (succeeded w ids) \<Longrightarrow>
   \<exists>k catId raw. detailResponse w k catId = Success raw \<and> getCategory (Success raw) = Some c"
proof -
  assume "c \<in> set (succeeded w ids)"
  then obtain k catId where "getCategory (detailResponse w k catId) = Some c"
    by (auto simp: succeeded_def map_filter_def)
  then show ?thesis
    by (cases "detailResponse w k catId") (auto simp: getCategory_def)
qed


section \<open>Single runs\<close>





lemma mixedWorld_ids:
  "getCategoriesIds (random mixedWorld) (listResponse mixedWorld) = [3, 7, 5, 1, 2, 8]"
  by code_simp

lemma mixedWorld_succeeded:
  "map (\<lambda>c. length (clues c)) (succeeded mixedWorld [3, 7, 5, 1, 2, 8]) = [5, 5, 5, 5, 5]"
  by code_simp

lemma titled_succeeded:
  assumes "\<forall>k catId raw. detailResponse w k catId = Success raw \<longrightarrow> title raw \<noteq> None"
  shows "titled (succeeded w ids)"
  unfolding titled_def list_all_iff
proof
  fix c assume "c \<in> set (succeeded w ids)"
  from succeeded_member [OF this] obtain k catId raw where
    "detailResponse w k catId = Success raw" "getCategory (Success raw) = Some c"
    by blast
  with assms show "title c \<noteq> None"
    by (auto simp: getCategory_Success)
qed


lemma categories_finish: "categories (page (finish r s)) = categories (page s)"
  by (auto simp: finish_def Let_def renderCategories_eq hideLoadingView_def)

lemma categories_nextFetch: "categories (page (nextFetch r ids s)) = categories (page s)"
  by (cases ids) (simp_all add: nextFetch_def categories_finish)

lemma step_detail_categories:
  "categories (page (step s (DetailArrives r resp))) = categories (page s) \<or>
   (\<exists>category. getCategory resp = Some category \<and>
      categories (page (step s (DetailArrives r resp))) = categories (page s) @ [category])"
  by (auto simp: categories_nextFetch split: status.splits pending.splits option.splits)

lemma run_alone_categories:
  "categories (page (exec s (runEvents (length (runs s)) w))) =
     succeeded w (getCategoriesIds (random w) (listResponse w))"
  by (simp add: run_alone Let_def)

lemma run_alone_completed:
  assumes "runs (exec s (runEvents (length (runs s)) w)) ! length (runs s) = Completed"
  shows "titled (succeeded w (getCategoriesIds (random w) (listResponse w)))"
    and "thead (page (exec s (runEvents (length (runs s)) w))) =
      [map (\<lambda>c. toUpperCase (the (title c))) (succeeded w (getCategoriesIds (random w) (listResponse w)))]"
    and "tbody (page (exec s (runEvents (length (runs s)) w))) =
      grid (length (succeeded w (getCategoriesIds (random w) (listResponse w))))"
  using assms by (auto simp: run_alone Let_def split: if_splits)

lemma sixWorld_ids: "getCategoriesIds (random sixWorld) (listResponse sixWorld) = [1, 2, 3, 4, 5, 6]"
  by code_simp

lemma sixWorld_succeeded: "length (succeeded sixWorld [1, 2, 3, 4, 5, 6]) = 6"
  by code_simp

lemma doubleClick_result:
  "exec idle doubleClickEvents =
     \<lparr>page = blankApp\<lparr>categories := replicate 12 mathFetched,
                        thead := [replicate 12 ''MATH''], tbody := grid 12\<rparr>,
      runs = [Completed, Completed]\<rparr>"
  by code_simp

lemma untitledWorld_run:
  "setupAndStart untitledWorld blankApp =
     Inl (TypeError, blankApp\<lparr>categories := [untitledCategory], spinner := True\<rparr>)"
proof -
  have i: "getCategoriesIds (random untitledWorld) (listResponse untitledWorld) = [1]"
    by code_simp
  have s: "succeeded untitledWorld [1] = [untitledCategory]"
    by (simp add: succeeded_def untitledWorld_def getCategory_Success untitledCategory_def)
  show ?thesis
    unfolding setupAndStart_eq i s
    by (simp add: titled_def untitledCategory_def blankApp_def)
qed

lemma mixedWorld_completes:
  "runs (exec idle (runEvents (length (runs idle)) mixedWorld)) ! length (runs idle) = Completed"
proof -
  have "\<forall>k catId raw. detailResponse mixedWorld k catId = Success raw \<longrightarrow> title raw \<noteq> None"
    by (auto simp: mixedWorld_def mathCategory_def split: if_splits)
  then have "titled (succeeded mixedWorld (getCategoriesIds (random mixedWorld) (listResponse mixedWorld)))"
    by (rule titled_succeeded)
  with run_alone [of idle mixedWorld] show ?thesis
    by (simp add: Let_def)
qed

lemma mixedWorld_count: "length (succeeded mixedWorld [3, 7, 5, 1, 2, 8]) = 5"
proof -
  have "length (map (\<lambda>c. length (clues c)) (succeeded mixedWorld [3, 7, 5, 1, 2, 8])) =
      length [5, 5, 5, 5, 5 :: nat]"
    by (simp only: mixedWorld_succeeded)
  then show ?thesis
    by simp
qed


section \<open>The reveal state machine\<close>

text \<open>
  Claim C1. Take any clue of the board that is in one of the three reveal states, and any
  sequence of clicks, on any cells and with any ids. After the sequence the clue is still
  there and still in one of the three states, its state is not earlier in the order
  hidden, question, answer than it was at the start, and one more click leaves it where it
  is or takes it to the next state: from hidden to question, from question to answer. A
  clue that went from hidden to answer was at question after some shorter prefix of the
  clicks.
\<close>

theorem reveal_monotonic:
  assumes "hasClue st i j" and "revealState (showingAt st i j)"
  shows "hasClue (dispatchAll st evs) i j \<and>
         revealState (showingAt (dispatchAll st evs) i j) \<and>
         revealRank (showingAt st i j) \<le> revealRank (showingAt (dispatchAll st evs) i j) \<and>
         revealStep (showingAt (dispatchAll st evs) i j) (showingAt (dispatch (dispatchAll st evs) ev) i j) \<and>
         (showingAt st i j = None \<and> showingAt (dispatchAll st evs) i j = Some ''answer'' \<longrightarrow>
            (\<exists>k < length evs. showingAt (dispatchAll st (take k evs)) i j = Some ''question''))"
proof -
  note inv = dispatchAll_invariant [OF assms, of evs]
  from inv have "revealStep (showingAt (dispatchAll st evs) i j) (showingAt (dispatch (dispatchAll st evs) ev) i j)"
    by (simp add: dispatch_revealStep)
  with inv dispatchAll_passes_question [OF assms(1), of evs] show ?thesis by blast
qed

theorem reveal_monotonic_witness:
  "hasClue smallApp 0 0 \<and> revealState (showingAt smallApp 0 0) \<and>
   showingAt smallApp 0 0 = None \<and>
   showingAt (dispatchAll smallApp [''0-0'', ''1-2'', ''0-0'']) 0 0 = Some ''answer'' \<and>
   revealStep (showingAt (dispatchAll smallApp [''0-0'', ''1-2'', ''0-0'']) 0 0)
     (showingAt (dispatch (dispatchAll smallApp [''0-0'', ''1-2'', ''0-0'']) ''0-0'') 0 0) \<and>
   (\<exists>k < length [''0-0'', ''1-2'', ''0-0''].
      showingAt (dispatchAll smallApp (take k [''0-0'', ''1-2'', ''0-0''])) 0 0 = Some ''question'')"
proof -
  have h: "hasClue smallApp 0 0"
    using smallApp_shape by (simp add: hasClue_def)
  have n: "showingAt smallApp 0 0 = None"
    using smallApp_showing by simp
  have r: "revealState (showingAt smallApp 0 0)"
    by (simp add: n revealState_def)
  have a: "showingAt (dispatchAll smallApp [''0-0'', ''1-2'', ''0-0'']) 0 0 = Some ''answer''"
    by code_simp
  from reveal_monotonic [OF h r, of "[''0-0'', ''1-2'', ''0-0'']" "''0-0''"] h r n a
  show ?thesis by blast
qed

text \<open>
  Claim C2. A click on the cell of a clue whose \<^verbatim>\<open>showing\<close> is \<^verbatim>\<open>"answer"\<close> returns
  normally and leaves the whole state as it was: the board data, the text and classes of
  every cell, and everything else.
\<close>

theorem handleClick_answer_noop:
  assumes "hasClue st i j" and "showingAt st i j = Some ''answer''"
  shows "handleClick (cellId i j) st = Inr st"
  using assms by (simp add: handleClick_cellId falsy_def)

theorem handleClick_answer_noop_witness:
  "hasClue smallApp 0 1 \<and> showingAt smallApp 0 1 = Some ''answer'' \<and>
   handleClick (cellId 0 1) smallApp = Inr smallApp"
proof -
  have h: "hasClue smallApp 0 1"
    using smallApp_shape by (simp add: hasClue_def)
  have a: "showingAt smallApp 0 1 = Some ''answer''"
    using smallApp_showing by simp
  from handleClick_answer_noop [OF h a] h a show ?thesis by simp
qed

text \<open>
  Claim C3. When a click on the cell of category \<open>i\<close> and row \<open>j\<close> returns, the board
  has the same number of categories, every category has its title and its number of clues,
  every clue has its question and its answer, and every clue other than the one at
  \<open>(i, j)\<close> is the clue it was; the started flag is untouched. So the only thing the call
  can have changed in the board is \<^verbatim>\<open>showing\<close> of the clue at \<open>(i, j)\<close>.
\<close>

theorem handleClick_frame:
  assumes "handleClick (cellId i j) st = Inr st'"
  shows "length (categories st') = length (categories st) \<and>
         (\<forall>c < length (categories st).
            title (categories st' ! c) = title (categories st ! c) \<and>
            length (clues (categories st' ! c)) = length (clues (categories st ! c)) \<and>
            (\<forall>q < length (clues (categories st ! c)).
               question (clues (categories st' ! c) ! q) = question (clues (categories st ! c) ! q) \<and>
               answer (clues (categories st' ! c) ! q) = answer (clues (categories st ! c) ! q) \<and>
               ((c, q) \<noteq> (i, j) \<longrightarrow> clues (categories st' ! c) ! q = clues (categories st ! c) ! q))) \<and>
         gameStarted st' = gameStarted st"
proof -
  from handleClick_categories [OF assms]
  consider "categories st' = categories st"
    | v where "categories st' = withShowing i j v (categories st)"
    by blast
  then have "length (categories st') = length (categories st) \<and>
         (\<forall>c < length (categories st).
            title (categories st' ! c) = title (categories st ! c) \<and>
            length (clues (categories st' ! c)) = length (clues (categories st ! c)) \<and>
            (\<forall>q < length (clues (categories st ! c)).
               question (clues (categories st' ! c) ! q) = question (clues (categories st ! c) ! q) \<and>
               answer (clues (categories st' ! c) ! q) = answer (clues (categories st ! c) ! q) \<and>
               ((c, q) \<noteq> (i, j) \<longrightarrow> clues (categories st' ! c) ! q = clues (categories st ! c) ! q)))"
  proof cases
    case 1
    then show ?thesis by simp
  next
    case 2
    then show ?thesis
      by (simp add: length_withShowing title_withShowing length_clues_withShowing clue_withShowing)
  qed
  with handleClick_gameStarted [OF assms] show ?thesis by simp
qed

theorem handleClick_frame_witness:
  "(\<exists>st'. handleClick (cellId 0 0) smallApp = Inr st' \<and>
      showingAt st' 0 0 = Some ''question'' \<and>
      length (categories st') = length (categories smallApp) \<and>
      title (categories st' ! 1) = title (categories smallApp ! 1) \<and>
      clues (categories st' ! 0) ! 1 = clues (categories smallApp ! 0) ! 1 \<and>
      clues (categories st' ! 1) ! 2 = clues (categories smallApp ! 1) ! 2)"
proof -
  have h: "hasClue smallApp 0 0"
    using smallApp_shape by (simp add: hasClue_def)
  have n: "showingAt smallApp 0 0 = None"
    using smallApp_showing by simp
  note c = smallApp_shape
  obtain st' where st': "handleClick (cellId 0 0) smallApp = Inr st'"
    by (simp add: handleClick_cellId h n falsy_def)
  then have q: "showingAt st' 0 0 = Some ''question''"
    using h by (auto simp: handleClick_cellId n falsy_def showingAt_withShowing)
  from handleClick_frame [OF st'] c st' q show ?thesis by simp
qed

section \<open>Rendering\<close>

text \<open>
  Claim C8. When rendering a board returns, rendering the same board again returns the
  same state. Whatever the table held before the first call, the header then has one row
  with the upper-cased titles in board order, and the body is the grid of
  \<^verbatim>\<open>NUM_QUESTIONS_PER_CAT\<close> rows with one cell per category and nothing else: every cell
  shows \<^verbatim>\<open>?\<close>, the ids are pairwise different, and they are the ids \<^verbatim>\<open>catIdx-clueIdx\<close> of
  the positions of the grid. When rendering throws instead, it leaves an empty table, and
  so does a second call.
\<close>

theorem renderCategories_idempotent:
  "(renderCategories cats st = Inr st' \<longrightarrow>
      renderCategories cats st' = Inr st' \<and>
      (\<exists>cells. thead st' = [cells] \<and>
         map Some cells = map (\<lambda>c. map_option toUpperCase (title c)) cats) \<and>
      tbody st' = grid (length cats) \<and>
      map td_text (concat (tbody st')) = replicate (NUM_QUESTIONS_PER_CAT * length cats) ''?'' \<and>
      distinct (map td_id (concat (tbody st'))) \<and>
      set (map td_id (concat (tbody st'))) =
        {cellId catIdx clueIdx | catIdx clueIdx.
           catIdx < length cats \<and> clueIdx < NUM_QUESTIONS_PER_CAT}) \<and>
   (renderCategories cats st = Inl (e, st') \<longrightarrow>
      renderCategories cats st' = Inl (e, st') \<and> thead st' = [] \<and> tbody st' = [])"
proof (cases "titled cats")
  case True
  let ?cells = "map (\<lambda>c. toUpperCase (the (title c))) cats"
  let ?st = "st\<lparr>thead := [?cells], tbody := grid (length cats)\<rparr>"
  from True have r: "renderCategories cats st = Inr ?st"
    by (simp add: renderCategories_eq)
  from True have again: "renderCategories cats ?st = Inr ?st"
    by (simp add: renderCategories_eq)
  have hd: "\<exists>cells. thead ?st = [cells] \<and>
      map Some cells = map (\<lambda>c. map_option toUpperCase (title c)) cats"
    using header_titles [OF True] by simp
  have tb: "tbody ?st = grid (length cats)"
    by simp
  have "map td_text (concat (tbody ?st)) = replicate (NUM_QUESTIONS_PER_CAT * length cats) ''?''"
    unfolding tb by (rule grid_texts)
  moreover have "distinct (map td_id (concat (tbody ?st)))"
    unfolding tb by (rule grid_ids_distinct)
  moreover have "set (map td_id (concat (tbody ?st))) =
      {cellId catIdx clueIdx | catIdx clueIdx.
         catIdx < length cats \<and> clueIdx < NUM_QUESTIONS_PER_CAT}"
    unfolding tb by (rule grid_ids_set)
  ultimately show ?thesis
    using again hd tb unfolding r by blast
next
  case False
  then show ?thesis
    by (auto simp: renderCategories_eq)
qed

theorem renderCategories_idempotent_witness:
  "renderCategories smallBoard (blankApp\<lparr>categories := smallBoard\<rparr>) = Inr smallApp \<and>
   renderCategories smallBoard smallApp = Inr smallApp \<and>
   tbody smallApp = grid 2 \<and>
   thead smallApp = [[''MATH'', ''LITERATURE'']] \<and>
   renderCategories [untitledCategory] smallApp = Inl (TypeError, blankApp\<lparr>categories := smallBoard\<rparr>) \<and>
   renderCategories [untitledCategory] (blankApp\<lparr>categories := smallBoard\<rparr>) =
     Inl (TypeError, blankApp\<lparr>categories := smallBoard\<rparr>)"
proof -
  note r = smallApp_rendered
  have l: "length smallBoard = 2"
    by (simp add: smallBoard_def)
  have t: "map (\<lambda>c. map_option toUpperCase (title c)) smallBoard
      = map Some [''MATH'', ''LITERATURE'']"
    by code_simp
  have u: "renderCategories [untitledCategory] smallApp =
      Inl (TypeError, blankApp\<lparr>categories := smallBoard\<rparr>)"
    by (simp add: renderCategories_eq titled_def untitledCategory_def smallApp_def
        titled_smallBoard blankApp_def)
  from renderCategories_idempotent [of smallBoard "blankApp\<lparr>categories := smallBoard\<rparr>" smallApp]
    renderCategories_idempotent [where cats = "[untitledCategory]" and st = smallApp
      and e = TypeError and st' = "blankApp\<lparr>categories := smallBoard\<rparr>"] r l t u
  show ?thesis by auto
qed

text \<open>
  Claim C10. Let a board hold, at index \<open>catIdx\<close>, a category with fewer than
  \<^verbatim>\<open>NUM_QUESTIONS_PER_CAT\<close> clues, and let it be rendered. The table still has in each of
  its rows a cell for that category with the id of the row; a click on any of those cells
  whose row has no clue behind it throws a \<^verbatim>\<open>TypeError\<close>, and the table holds such a cell.
\<close>

theorem short_category_click_throws:
  assumes "renderCategories (categories st) st = Inr st'"
    and "catIdx < length (categories st)"
    and "length (clues (categories st ! catIdx)) < NUM_QUESTIONS_PER_CAT"
  shows "(\<forall>row < NUM_QUESTIONS_PER_CAT.
            row < length (tbody st') \<and> catIdx < length (tbody st' ! row) \<and>
            tbody st' ! row ! catIdx = maskedCell row catIdx) \<and>
         (\<forall>row. length (clues (categories st ! catIdx)) \<le> row \<longrightarrow>
            handleClick (cellId catIdx row) st' = Inl TypeError) \<and>
         (\<exists>cell \<in> set (concat (tbody st')). handleClick (td_id cell) st' = Inl TypeError)"
proof -
  from assms(1) have tb: "tbody st' = grid (length (categories st))"
    by (auto simp: renderCategories_eq split: if_splits)
  have cats: "categories st' = categories st"
    using assms(1) by (rule categories_renderCategories)
  have cells: "\<forall>row < NUM_QUESTIONS_PER_CAT. row < length (tbody st') \<and>
      catIdx < length (tbody st' ! row) \<and> tbody st' ! row ! catIdx = maskedCell row catIdx"
    using assms(2) by (simp add: tb grid_cell)
  have throws: "handleClick (cellId catIdx row) st' = Inl TypeError"
    if "length (clues (categories st ! catIdx)) \<le> row" for row
  proof -
    from that have "\<not> hasClue st' catIdx row"
      by (simp add: hasClue_def cats)
    then show ?thesis
      by (simp add: handleClick_cellId)
  qed
  let ?last = "NUM_QUESTIONS_PER_CAT - 1"
  have last: "?last < NUM_QUESTIONS_PER_CAT" "length (clues (categories st ! catIdx)) \<le> ?last"
    using assms(3) by (simp_all add: NUM_QUESTIONS_PER_CAT_def)
  have "maskedCell ?last catIdx \<in> set (concat (tbody st'))"
    unfolding tb using last(1) assms(2) by (rule grid_cell_mem)
  moreover have "handleClick (td_id (maskedCell ?last catIdx)) st' = Inl TypeError"
    using throws [OF last(2)] by (simp add: maskedCell_def)
  ultimately have "\<exists>cell \<in> set (concat (tbody st')). handleClick (td_id cell) st' = Inl TypeError"
    by blast
  with cells throws show ?thesis by blast
qed

theorem short_category_click_throws_witness:
  "renderCategories (categories smallApp) smallApp = Inr smallApp \<and>
   1 < length (categories smallApp) \<and>
   length (clues (categories smallApp ! 1)) < NUM_QUESTIONS_PER_CAT \<and>
   tbody smallApp ! 4 ! 1 = maskedCell 4 1 \<and>
   handleClick (cellId 1 4) smallApp = Inl TypeError \<and>
   handleClick (cellId 1 3) smallApp = Inl TypeError"
proof -
  note r = smallApp_render
  have c: "1 < length (categories smallApp)"
    using smallApp_shape by simp
  have s: "length (clues (categories smallApp ! 1)) < NUM_QUESTIONS_PER_CAT"
    using smallApp_shape by (simp add: NUM_QUESTIONS_PER_CAT_def)
  from short_category_click_throws [OF r c s] r c s show ?thesis
    using smallApp_shape by (simp add: NUM_QUESTIONS_PER_CAT_def)
qed

section \<open>Starting a game\<close>




text \<open>
  Claim C6. For a successful category-detail response, \<^verbatim>\<open>getCategory\<close> returns a category
  with the title of the response whose clues are the first \<^verbatim>\<open>NUM_QUESTIONS_PER_CAT\<close> clues
  of the response (all of them when there are fewer), in their order, with the same
  questions and answers, and with \<^verbatim>\<open>showing\<close> set to \<^verbatim>\<open>null\<close> in each, whatever it held.
\<close>

theorem getCategory_truncates_and_hides:
  "\<exists>category. getCategory (Success raw) = Some category \<and>
     title category = title raw \<and>
     clues category = map (\<lambda>clue. clue\<lparr>showing := None\<rparr>) (take NUM_QUESTIONS_PER_CAT (clues raw)) \<and>
     length (clues category) = min NUM_QUESTIONS_PER_CAT (length (clues raw)) \<and>
     map question (clues category) = take NUM_QUESTIONS_PER_CAT (map question (clues raw)) \<and>
     map answer (clues category) = take NUM_QUESTIONS_PER_CAT (map answer (clues raw)) \<and>
     map showing (clues category) = replicate (min NUM_QUESTIONS_PER_CAT (length (clues raw))) None"
proof -
  let ?c = "raw\<lparr>clues := map (\<lambda>clue. clue\<lparr>showing := None\<rparr>) (take NUM_QUESTIONS_PER_CAT (clues raw))\<rparr>"
  have "map showing (clues ?c) = replicate (min NUM_QUESTIONS_PER_CAT (length (clues raw))) None"
    by (simp add: comp_def map_replicate_const min.commute)
  moreover have "map question (clues ?c) = take NUM_QUESTIONS_PER_CAT (map question (clues raw))"
    by (simp add: comp_def take_map)
  moreover have "map answer (clues ?c) = take NUM_QUESTIONS_PER_CAT (map answer (clues raw))"
    by (simp add: comp_def take_map)
  moreover have "length (clues ?c) = min NUM_QUESTIONS_PER_CAT (length (clues raw))"
    by (simp add: min.commute)
  ultimately show ?thesis
    by (intro exI [of _ ?c]) (simp add: getCategory_Success)
qed

text \<open>
  Claim C5, as amended. For a successful category-list response, \<^verbatim>\<open>getCategoriesIds\<close>
  returns \<^verbatim>\<open>NUM_CATEGORIES\<close> ids, or all of them when the response lists fewer. The ids
  returned are taken from the ids of the response without replacement: no id comes back
  more often than the response lists it. So the result has no duplicates whenever the
  response lists no id twice.
\<close>

theorem getCategoriesIds_sample:
  "length (getCategoriesIds rnd (Success pool)) = min NUM_CATEGORIES (length pool) \<and>
   length (getCategoriesIds rnd (Success pool)) \<le> NUM_CATEGORIES \<and>
   mset (getCategoriesIds rnd (Success pool)) \<subseteq># mset pool \<and>
   set (getCategoriesIds rnd (Success pool)) \<subseteq> set pool \<and>
   (distinct pool \<longrightarrow> distinct (getCategoriesIds rnd (Success pool)))"
proof -
  have "set (getCategoriesIds rnd (Success pool)) \<subseteq> set pool"
    using mset_getCategoriesIds [of rnd pool] by (metis set_mset_mono set_mset_mset)
  then show ?thesis
    by (simp add: length_getCategoriesIds mset_getCategoriesIds distinct_getCategoriesIds)
qed

theorem getCategoriesIds_sample_witness:
  "distinct [1, 2, 3, 4, 5, 6, 7, 8 :: int] \<and>
   getCategoriesIds stepRandom (Success [1, 2, 3, 4, 5, 6, 7, 8]) = [3, 7, 5, 1, 2, 8] \<and>
   distinct (getCategoriesIds stepRandom (Success [1, 2, 3, 4, 5, 6, 7, 8]))"
proof -
  have d: "distinct [1, 2, 3, 4, 5, 6, 7, 8 :: int]"
    by simp
  have v: "getCategoriesIds stepRandom (Success [1, 2, 3, 4, 5, 6, 7, 8]) = [3, 7, 5, 1, 2, 8]"
    by code_simp
  from getCategoriesIds_sample [of stepRandom "[1, 2, 3, 4, 5, 6, 7, 8]"] d
  have "distinct (getCategoriesIds stepRandom (Success [1, 2, 3, 4, 5, 6, 7, 8]))"
    by blast
  with d v show ?thesis by blast
qed

text \<open>
  The claim as stated promises a result without duplicates for every successful
  response. A response that lists the id 1 twice gives the result 1, 1.
\<close>

theorem getCategoriesIds_duplicates_counterexample:
  "getCategoriesIds zeroRandom (Success [1, 1]) = [1, 1] \<and>
   \<not> distinct (getCategoriesIds zeroRandom (Success [1, 1]))"
  by code_simp

text \<open>
  Claim C7, as amended. A failed category-list request makes \<^verbatim>\<open>getCategoriesIds\<close> return
  the empty array, and a failed category-detail request makes \<^verbatim>\<open>getCategory\<close> return
  \<^verbatim>\<open>null\<close>. The step of a run that receives a category-detail response leaves the board
  as it is or appends the one category that \<^verbatim>\<open>getCategory\<close> returned, never \<^verbatim>\<open>null\<close>. After
  a run that no other run overlaps (no other step falls between its click and its last
  response), the board holds the categories whose fetch succeeded in that run, in the
  order of the ids, and nothing else; when that run completes, the header
  row has their upper-cased titles in that order and each body row has one cell for each
  of them.
\<close>

theorem failed_fetches_skipped:
  "getCategoriesIds rnd Failure = [] \<and>
   getCategory Failure = None \<and>
   (categories (page (step s0 (DetailArrives r resp))) = categories (page s0) \<or>
    (\<exists>category. getCategory resp = Some category \<and>
       categories (page (step s0 (DetailArrives r resp))) = categories (page s0) @ [category])) \<and>
   (let ids = getCategoriesIds (random w) (listResponse w);
        s' = exec s (runEvents (length (runs s)) w)
    in categories (page s') = succeeded w ids \<and>
       (runs s' ! length (runs s) = Completed \<longrightarrow>
          (\<exists>cells. thead (page s') = [cells] \<and>
             map Some cells = map (\<lambda>c. map_option toUpperCase (title c)) (categories (page s'))) \<and>
          tbody (page s') = grid (length (categories (page s')))))"
proof -
  let ?ids = "getCategoriesIds (random w) (listResponse w)"
  let ?s = "exec s (runEvents (length (runs s)) w)"
  have a: "getCategoriesIds rnd Failure = []"
    by (simp add: getCategoriesIds_def)
  have b: "getCategory Failure = None"
    by (simp add: getCategory_def)
  note c = step_detail_categories [of s0 r resp]
  have d: "categories (page ?s) = succeeded w ?ids"
    by (rule run_alone_categories)
  have e: "(\<exists>cells. thead (page ?s) = [cells] \<and>
         map Some cells = map (\<lambda>c. map_option toUpperCase (title c)) (categories (page ?s))) \<and>
      tbody (page ?s) = grid (length (categories (page ?s)))"
    if r: "runs ?s ! length (runs s) = Completed"
    using run_alone_completed(2,3) [OF r] header_titles [OF run_alone_completed(1) [OF r]]
    by (simp add: d)
  from a b c d e show ?thesis
    unfolding Let_def by blast
qed

theorem failed_fetches_skipped_witness:
  "runs (exec idle (runEvents (length (runs idle)) mixedWorld)) ! length (runs idle) = Completed \<and>
   getCategoriesIds (random mixedWorld) (listResponse mixedWorld) = [3, 7, 5, 1, 2, 8] \<and>
   detailResponse mixedWorld 0 3 = Failure \<and>
   length (categories (page (exec idle (runEvents (length (runs idle)) mixedWorld)))) = 5 \<and>
   tbody (page (exec idle (runEvents (length (runs idle)) mixedWorld))) = grid 5"
proof -
  note c = mixedWorld_completes
  have f: "detailResponse mixedWorld 0 3 = Failure"
    by (simp add: mixedWorld_def)
  from failed_fetches_skipped [where s = idle and w = mixedWorld] c
  have "categories (page (exec idle (runEvents (length (runs idle)) mixedWorld))) =
        succeeded mixedWorld [3, 7, 5, 1, 2, 8] \<and>
      tbody (page (exec idle (runEvents (length (runs idle)) mixedWorld))) =
        grid (length (categories (page (exec idle (runEvents (length (runs idle)) mixedWorld)))))"
    unfolding Let_def mixedWorld_ids by blast
  with c f mixedWorld_ids mixedWorld_count show ?thesis
    by simp
qed

text \<open>
  The claim as stated has the rendered board show exactly the categories whose fetch
  succeeded. In \<open>untitledWorld\<close> the one fetch succeeds and its category is pushed, but the
  run throws in \<^verbatim>\<open>renderCategories\<close> and the table stays empty. After the double click the
  second run has fetched six categories and the table it rendered has twelve columns.
\<close>

theorem rendered_board_counterexample:
  "getCategory (detailResponse untitledWorld 0 1) = Some untitledCategory \<and>
   setupAndStart untitledWorld blankApp =
     Inl (TypeError, blankApp\<lparr>categories := [untitledCategory], spinner := True\<rparr>) \<and>
   thead (blankApp\<lparr>categories := [untitledCategory], spinner := True\<rparr>) = [] \<and>
   tbody (blankApp\<lparr>categories := [untitledCategory], spinner := True\<rparr>) = [] \<and>
   runs (exec idle doubleClickEvents) = [Completed, Completed] \<and>
   length (succeeded sixWorld (getCategoriesIds (random sixWorld) (listResponse sixWorld))) = 6 \<and>
   length (categories (page (exec idle doubleClickEvents))) = 12 \<and>
   thead (page (exec idle doubleClickEvents)) = [replicate 12 ''MATH'']"
  by (simp add: untitledWorld_run doubleClick_result sixWorld_ids sixWorld_succeeded)
     (simp add: untitledWorld_def getCategory_Success untitledCategory_def blankApp_def)



end
